theory Spec2Isabelle
  imports Complex_Main "HOL-Library.AList" "HOL-Library.Word"
begin

section \<open>The fs123 distributed-cache reflector\<close>

text \<open>
  A shallow embedding of \<^verbatim>\<open>client/distrib_cache_reflector.py\<close>: the module-level
  contact table, and the body of the \<^verbatim>\<open>while True\<close> loop that receives one UDP
  datagram, applies the per-source cooldown, and reflects the datagram to the known
  contacts while evicting the stale ones.

  Modelling decisions.
  \<^item> \<^verbatim>\<open>contacts\<close> is a \<^verbatim>\<open>defaultdict(int)\<close>. Python dictionaries iterate in insertion
    order, and the order fixes which random draw belongs to which contact, so the table
    is an association list in insertion order whose keys are distinct.
  \<^item> Time stamps are Python floats (\<^verbatim>\<open>time.time()\<close>); they are idealised as reals, and
    so are the fan-out factor \<^verbatim>\<open>f\<close> and the values of \<^verbatim>\<open>random.random()\<close>.
  \<^item> \<^verbatim>\<open>random.random()\<close> reads a global generator. The generator is an explicit
    infinite sequence of draws; taking a draw returns its head and the shifted sequence.
  \<^item> The socket is an input (the received datagrams, each with its source and the clock
    reading) and an output (the list of \<^verbatim>\<open>sendto\<close> calls, in order). Whether a
    \<^verbatim>\<open>sendto\<close> call returns or raises \<^verbatim>\<open>OSError\<close> is decided by the network, a
    parameter of the model. A run is over the finite sequence of datagrams that
    \<^verbatim>\<open>recvfrom\<close> delivered.
  \<^item> An uncaught Python exception ends the process; it is the \<open>Inl\<close> branch of the
    result.
\<close>

subsection \<open>Data\<close>

type_synonym bytes = "8 word list"

type_synonym address = "string \<times> nat"

type_synonym contacts = "(address \<times> real) list"

type_synonym rng = "nat \<Rightarrow> real"

type_synonym sends = "(bytes \<times> address) list"

datatype error = IndexError | KeyError | OSError

text \<open>The network: whether sending a payload to a destination returns.\<close>

type_synonym network = "bytes \<Rightarrow> address \<Rightarrow> bool"

text \<open>The dictionary invariant: one entry per key.\<close>

definition wf_contacts :: "contacts \<Rightarrow> bool" where
  "wf_contacts c = distinct (map fst c)"

subsection \<open>Dictionary operations used by the loop\<close>

text \<open>
  \<^verbatim>\<open>contacts[address]\<close> on a \<^verbatim>\<open>defaultdict(int)\<close>: a missing key is inserted with the
  value \<^verbatim>\<open>int()\<close>, that is 0, at the end of the insertion order, and 0 is returned.
\<close>

definition getitem :: "contacts \<Rightarrow> address \<Rightarrow> real \<times> contacts" where
  "getitem c a = (case map_of c a of Some t \<Rightarrow> (t, c) | None \<Rightarrow> (0, c @ [(a, 0)]))"

text \<open>\<^verbatim>\<open>contacts[address] = now\<close>: an existing key keeps its place, a new one goes last.\<close>

definition setitem :: "contacts \<Rightarrow> address \<Rightarrow> real \<Rightarrow> contacts" where
  "setitem c a v = AList.update a v c"

text \<open>\<^verbatim>\<open>del contacts[addr]\<close>: raises \<^verbatim>\<open>KeyError\<close> when the key is missing.\<close>

definition delitem :: "contacts \<Rightarrow> address \<Rightarrow> error + contacts" where
  "delitem c a = (if a \<in> fst ` set c then Inr (AList.delete a c) else Inl KeyError)"

subsection \<open>The random source\<close>

definition random_random :: "rng \<Rightarrow> real \<times> rng" where
  "random_random g = (g 0, \<lambda>i. g (Suc i))"

definition const_rng :: "real \<Rightarrow> rng" where
  "const_rng r = (\<lambda>_. r)"

definition unit_draws :: "rng \<Rightarrow> bool" where
  "unit_draws g = (\<forall>i. 0 \<le> g i \<and> g i < 1)"

subsection \<open>The socket\<close>

text \<open>
  \<^verbatim>\<open>sock.sendto(data, 0, addr)\<close>: returns, or raises \<^verbatim>\<open>OSError\<close>, which the loop does not
  catch.
\<close>

definition sendto :: "network \<Rightarrow> bytes \<Rightarrow> address \<Rightarrow> error + unit" where
  "sendto net data addr = (if net data addr then Inr () else Inl OSError)"

text \<open>
  A network on which every destination can be sent to except port 0, for which the
  system call fails.
\<close>

definition port0_net :: network where
  "port0_net data addr = (snd addr \<noteq> 0)"

subsection \<open>The loop body\<close>

text \<open>
  The logging call at the head of the loop evaluates \<^verbatim>\<open>int(data[0])\<close> while building
  its message: indexing an empty \<^verbatim>\<open>bytes\<close> raises \<^verbatim>\<open>IndexError\<close>. The slice
  \<^verbatim>\<open>data[1:-1]\<close> never raises.
\<close>

definition log_received :: "bytes \<Rightarrow> error + unit" where
  "log_received data = (case data of [] \<Rightarrow> Inl IndexError | b # _ \<Rightarrow> Inr ())"

text \<open>\<^verbatim>\<open>f = 50./(len(contacts)+1)\<close>\<close>

definition fanout :: "nat \<Rightarrow> real" where
  "fanout n = 50 / (real n + 1)"

text \<open>
  The \<^verbatim>\<open>for addr,when in list(contacts.items())\<close> loop, over the snapshot, with the
  live table, the generator and the datagrams sent so far as the state.
\<close>

fun reflect ::
  "network \<Rightarrow> real \<Rightarrow> real \<Rightarrow> bytes \<Rightarrow> (address \<times> real) list \<Rightarrow> contacts \<Rightarrow> rng \<Rightarrow> sends
     \<Rightarrow> error + (contacts \<times> rng \<times> sends)" where
  "reflect net f now data [] c g sent = Inr (c, g, sent)"
| "reflect net f now data ((addr, when) # rest) c g sent =
     (let (r, g') = random_random g
      in case (if r < f then sendto net data addr else Inr ()) of
           Inl e \<Rightarrow> Inl e
         | Inr _ \<Rightarrow>
             (let sent' = (if r < f then sent @ [(data, addr)] else sent)
              in if now - when > 300 then
                   (case delitem c addr of
                      Inl e \<Rightarrow> Inl e
                    | Inr c' \<Rightarrow> reflect net f now data rest c' g' sent')
                 else reflect net f now data rest c g' sent'))"

text \<open>One iteration of \<^verbatim>\<open>while True\<close>, from \<^verbatim>\<open>recvfrom\<close> to the end of the body.\<close>

definition handle_packet ::
  "network \<Rightarrow> contacts \<Rightarrow> rng \<Rightarrow> bytes \<Rightarrow> address \<Rightarrow> real
     \<Rightarrow> error + (contacts \<times> rng \<times> sends)" where
  "handle_packet net c g data address now =
     (case log_received data of
        Inl e \<Rightarrow> Inl e
      | Inr _ \<Rightarrow>
          (let (last, c1) = getitem c address
           in if now - last < 10 then Inr (c1, g, [])
              else (let c2 = setitem c1 address now;
                        f = fanout (length c2)
                    in reflect net f now data c2 c2 g [])))"

text \<open>
  The loop over a finite sequence of received datagrams (payload, source, clock
  reading). The result lists the datagrams sent for each received one.
\<close>

fun main_loop ::
  "network \<Rightarrow> contacts \<Rightarrow> rng \<Rightarrow> (bytes \<times> address \<times> real) list
     \<Rightarrow> error + (contacts \<times> rng \<times> sends list)" where
  "main_loop net c g [] = Inr (c, g, [])"
| "main_loop net c g ((data, address, now) # more) =
     (case handle_packet net c g data address now of
        Inl e \<Rightarrow> Inl e
      | Inr (c', g', sent) \<Rightarrow>
          (case main_loop net c' g' more of
             Inl e \<Rightarrow> Inl e
           | Inr (c'', g'', out) \<Rightarrow> Inr (c'', g'', sent # out)))"

subsection \<open>Observations\<close>

text \<open>The time stamp the cooldown test reads: the stored one, or 0 for a new source.\<close>

definition last_seen :: "contacts \<Rightarrow> address \<Rightarrow> real" where
  "last_seen c a = fst (getitem c a)"

text \<open>The table that the reflection pass of an accepted datagram iterates over.\<close>

definition snapshot :: "contacts \<Rightarrow> address \<Rightarrow> real \<Rightarrow> contacts" where
  "snapshot c a now = setitem (snd (getitem c a)) a now"

definition fresh :: "real \<Rightarrow> address \<times> real \<Rightarrow> bool" where
  "fresh now e = (\<not> now - snd e > 300)"

text \<open>
  The entries of a list whose draw is below the factor, the entry at position \<open>i\<close>
  being tested against draw \<open>i\<close>.
\<close>

definition selected :: "real \<Rightarrow> rng \<Rightarrow> 'a list \<Rightarrow> 'a list" where
  "selected f g xs = map fst (filter (\<lambda>p. g (snd p) < f) (zip xs [0..<length xs]))"

text \<open>A result without its generator, for comparing runs.\<close>

definition outcome :: "error + (contacts \<times> rng \<times> 'a) \<Rightarrow> error + (contacts \<times> 'a)" where
  "outcome r = (case r of Inl e \<Rightarrow> Inl e | Inr (c, g, out) \<Rightarrow> Inr (c, out))"

text \<open>
  The chance that \<^verbatim>\<open>random.random() < f\<close> holds for a draw that is uniform on the
  half-open unit interval: the draws that pass the test are those from 0 up to, and
  without, the value below, so the chance is that value.
\<close>

definition forward_prob :: "real \<Rightarrow> real" where
  "forward_prob f = (if f \<le> 0 then 0 else if f < 1 then f else 1)"

text \<open>
  The expected number of \<^verbatim>\<open>sendto\<close> calls of one reflection pass over a snapshot of
  \<open>n\<close> entries: every entry is tested against the same \<^verbatim>\<open>f\<close>, computed from \<open>n\<close>.
\<close>

definition expected_sends :: "nat \<Rightarrow> real" where
  "expected_sends n = (\<Sum>i<n. forward_prob (fanout n))"

text \<open>A table of \<open>n\<close> contacts on one host, on the ports 1 to \<open>n\<close>, all seen at \<open>t\<close>.\<close>

definition ports_table :: "nat \<Rightarrow> real \<Rightarrow> contacts" where
  "ports_table n t = map (\<lambda>p. ((''10.0.0.1'', p), t)) [1..<Suc n]"

section \<open>Properties\<close>

subsection \<open>Selection by draws\<close>

lemma selected_Nil: "selected f g [] = []"
  by (simp add: selected_def)

lemma selected_Cons:
  "selected f g (e # es) = (if g 0 < f then [e] else []) @ selected f (\<lambda>i. g (Suc i)) es"
proof -
  have idx: "[0..<length (e # es)] = 0 # map Suc [0..<length es]"
    by (simp add: upt_conv_Cons map_Suc_upt del: upt_Suc)
  show ?thesis
    unfolding selected_def idx by (simp add: zip_map2 filter_map comp_def case_prod_beta)
qed

lemma selected_all: "\<forall>i. g i < f \<Longrightarrow> selected f g xs = xs"
  by (induction xs arbitrary: g) (simp_all add: selected_Nil selected_Cons)

subsection \<open>The reflection pass\<close>

text \<open>
  Deleting a key keeps the other entries in order. For a snapshot whose entries are
  entries of the live table, the pass either ends at a send that the network refuses,
  or it completes; then it leaves exactly the entries that are not both scanned and
  stale, it has taken one draw per scanned entry, and it has sent to the selected
  entries in order. It never fails on a deletion.
\<close>

lemma delete_filter: "AList.delete a c = filter (\<lambda>e. fst e \<noteq> a) c"
  by (induction c) auto

lemma delitem_present:
  "a \<in> fst ` set c \<Longrightarrow> delitem c a = Inr (filter (\<lambda>e. fst e \<noteq> a) c)"
  by (simp add: delitem_def delete_filter)

lemma reflect_step_refused:
  "g 0 < f \<Longrightarrow> \<not> net data a \<Longrightarrow>
     reflect net f now data ((a, w) # rest) c g sent = Inl OSError"
  by (simp add: random_random_def sendto_def)

lemma reflect_step_stale:
  "g 0 < f \<longrightarrow> net data a \<Longrightarrow> now - w > 300 \<Longrightarrow> delitem c a = Inr c1 \<Longrightarrow>
     reflect net f now data ((a, w) # rest) c g sent =
       reflect net f now data rest c1 (\<lambda>i. g (Suc i))
         (if g 0 < f then sent @ [(data, a)] else sent)"
  by (simp add: random_random_def sendto_def)

lemma reflect_step_fresh:
  "g 0 < f \<longrightarrow> net data a \<Longrightarrow> \<not> now - w > 300 \<Longrightarrow>
     reflect net f now data ((a, w) # rest) c g sent =
       reflect net f now data rest c (\<lambda>i. g (Suc i))
         (if g 0 < f then sent @ [(data, a)] else sent)"
  by (simp add: random_random_def sendto_def)


lemma reflect_result:
  assumes "distinct (map fst c)" "set snap \<subseteq> set c" "distinct (map fst snap)"
  shows "(reflect net f now data snap c g sent = Inl OSError \<and>
            (\<exists>e \<in> set (selected f g snap). \<not> net data (fst e))) \<or>
         ((\<forall>e \<in> set (selected f g snap). net data (fst e)) \<and>
          reflect net f now data snap c g sent =
            Inr (filter (\<lambda>e. e \<notin> set snap \<or> fresh now e) c, (\<lambda>i. g (i + length snap)),
                 sent @ map (\<lambda>e. (data, fst e)) (selected f g snap)))"
  using assms
proof (induction snap arbitrary: c g sent)
  case Nil
  then show ?case by (simp add: selected_Nil)
next
  case (Cons e rest)
  obtain a w where e: "e = (a, w)" by (cases e)
  from Cons.prems e have in_c: "(a, w) \<in> set c" and rest_c: "set rest \<subseteq> set c"
    and a_rest: "a \<notin> fst ` set rest" and d_rest: "distinct (map fst rest)"
    by auto
  let ?g = "\<lambda>i. g (Suc i)"
  let ?s = "if g 0 < f then sent @ [(data, a)] else sent"
  let ?c = "if now - w > 300 then filter (\<lambda>x. fst x \<noteq> a) c else c"
  show ?case
  proof (cases "g 0 < f \<and> \<not> net data a")
    case True
    then have "reflect net f now data (e # rest) c g sent = Inl OSError"
      unfolding e by (intro reflect_step_refused) simp_all
    moreover have "\<exists>x \<in> set (selected f g (e # rest)). \<not> net data (fst x)"
      using True e by (simp add: selected_Cons)
    ultimately show ?thesis by blast
  next
    case False
    then have ok: "g 0 < f \<longrightarrow> net data a" by blast
    have step: "reflect net f now data (e # rest) c g sent = reflect net f now data rest ?c ?g ?s"
    proof (cases "now - w > 300")
      case True
      have "delitem c a = Inr (filter (\<lambda>x. fst x \<noteq> a) c)"
        using in_c by (intro delitem_present) force
      from reflect_step_stale [where g = g and f = f and net = net and data = data and a = a,
          OF ok True this] True e
      show ?thesis by simp
    next
      case False
      from reflect_step_fresh [where g = g and f = f and net = net and data = data and a = a,
          OF ok False] False e
      show ?thesis by simp
    qed
    have d: "distinct (map fst ?c)"
      using Cons.prems(1) by (simp add: distinct_map_filter)
    have sub: "set rest \<subseteq> set ?c"
      using rest_c a_rest by force
    have key: "x = (a, w)" if "x \<in> set c" "fst x = a" for x
      using Cons.prems(1) in_c that by (metis eq_key_imp_eq_value prod.collapse)
    have eq: "filter (\<lambda>x. x \<notin> set rest \<or> fresh now x) ?c =
              filter (\<lambda>x. x \<notin> set (e # rest) \<or> fresh now x) c"
    proof (cases "now - w > 300")
      case True
      have pt: "(fst x \<noteq> a \<and> (x \<notin> set rest \<or> fresh now x)) =
                (x \<notin> set (e # rest) \<or> fresh now x)" if x: "x \<in> set c" for x
      proof (cases "fst x = a")
        case same: True
        with x have "x = (a, w)" by (rule key)
        with True e show ?thesis by (simp add: fresh_def)
      next
        case False
        with e have "x \<noteq> e" by auto
        with False show ?thesis by simp
      qed
      have "filter (\<lambda>x. x \<notin> set rest \<or> fresh now x) (filter (\<lambda>x. fst x \<noteq> a) c) =
            filter (\<lambda>x. x \<notin> set (e # rest) \<or> fresh now x) c"
        unfolding filter_filter using pt by (rule filter_cong [OF refl])
      with True show ?thesis by (simp only: if_True)
    next
      case False
      have "filter (\<lambda>x. x \<notin> set rest \<or> fresh now x) c =
            filter (\<lambda>x. x \<notin> set (e # rest) \<or> fresh now x) c"
      proof (rule filter_cong [OF refl])
        fix x
        show "(x \<notin> set rest \<or> fresh now x) = (x \<notin> set (e # rest) \<or> fresh now x)"
          using False e by (cases "x = e") (simp_all add: fresh_def)
      qed
      with False show ?thesis by (simp only: if_False)
    qed
    have shift: "(\<lambda>i. g (Suc (i + length rest))) = (\<lambda>i. g (i + length (e # rest)))"
      by simp
    have sends: "?s @ map (\<lambda>x. (data, fst x)) (selected f ?g rest) =
                 sent @ map (\<lambda>x. (data, fst x)) (selected f g (e # rest))"
      using e by (simp add: selected_Cons)
    have all: "(\<forall>x \<in> set (selected f g (e # rest)). net data (fst x)) =
               (\<forall>x \<in> set (selected f ?g rest). net data (fst x))"
      using ok e by (auto simp: selected_Cons)
    have ex: "(\<exists>x \<in> set (selected f g (e # rest)). \<not> net data (fst x)) =
              (\<exists>x \<in> set (selected f ?g rest). \<not> net data (fst x))"
      using ok e by (auto simp: selected_Cons)
    from Cons.IH [OF d sub d_rest, of ?g ?s]
    show ?thesis
      unfolding step eq shift sends all ex .
  qed
qed

lemma selected_subset: "set (selected f g xs) \<subseteq> set xs"
proof (induction xs arbitrary: g)
  case Nil
  then show ?case by (simp add: selected_Nil)
next
  case (Cons x xs)
  from Cons [of "\<lambda>i. g (Suc i)"] show ?case
    by (auto simp: selected_Cons)
qed

subsection \<open>One loop iteration\<close>

text \<open>
  The lookup at the head of the body, the table the pass iterates over, and the
  outcomes of the cooldown test.
\<close>

lemma getitem_cases:
  "(map_of c a = None \<and> getitem c a = (0, c @ [(a, 0)])) \<or>
   (\<exists>t. map_of c a = Some t \<and> getitem c a = (t, c))"
  by (cases "map_of c a") (simp_all add: getitem_def)

lemma wf_getitem: "wf_contacts c \<Longrightarrow> wf_contacts (snd (getitem c a))"
  using getitem_cases [of c a] by (auto simp: wf_contacts_def map_of_eq_None_iff)

lemma wf_snapshot: "wf_contacts c \<Longrightarrow> wf_contacts (snapshot c a now)"
  using wf_getitem [of c a]
  by (simp add: snapshot_def setitem_def wf_contacts_def distinct_update)

lemma map_of_getitem: "map_of (snd (getitem c a)) a = Some (last_seen c a)"
  using getitem_cases [of c a] by (auto simp: last_seen_def map_add_def)

lemma map_of_getitem_other: "b \<noteq> a \<Longrightarrow> map_of (snd (getitem c b)) a = map_of c a"
  using getitem_cases [of c b] by (auto simp: map_add_def split: option.splits)

lemma map_of_snapshot: "map_of (snapshot c a now) b = (if b = a then Some now else map_of c b)"
  by (simp add: snapshot_def setitem_def update_conv' map_of_getitem_other)

lemma handle_packet_Inr_data: "handle_packet net c g data a now = Inr r \<Longrightarrow> data \<noteq> []"
  by (auto simp: handle_packet_def log_received_def)

lemma handle_packet_reject:
  "data \<noteq> [] \<Longrightarrow> now - last_seen c a < 10 \<Longrightarrow>
     handle_packet net c g data a now = Inr (snd (getitem c a), g, [])"
  by (cases data)
     (simp_all add: handle_packet_def log_received_def last_seen_def case_prod_beta)

lemma handle_packet_accept:
  "data \<noteq> [] \<Longrightarrow> \<not> now - last_seen c a < 10 \<Longrightarrow>
     handle_packet net c g data a now =
       reflect net (fanout (length (snapshot c a now))) now data
         (snapshot c a now) (snapshot c a now) g []"
  by (cases data)
     (simp_all add: handle_packet_def log_received_def last_seen_def snapshot_def
        case_prod_beta Let_def)

lemma handle_packet_accept_result:
  assumes "wf_contacts c" "data \<noteq> []" "\<not> now - last_seen c a < 10"
  shows "(handle_packet net c g data a now = Inl OSError \<and>
            (\<exists>e \<in> set (selected (fanout (length (snapshot c a now))) g (snapshot c a now)).
               \<not> net data (fst e))) \<or>
         ((\<forall>e \<in> set (selected (fanout (length (snapshot c a now))) g (snapshot c a now)).
             net data (fst e)) \<and>
          handle_packet net c g data a now =
            Inr (filter (fresh now) (snapshot c a now),
                 (\<lambda>i. g (i + length (snapshot c a now))),
                 map (\<lambda>e. (data, fst e))
                   (selected (fanout (length (snapshot c a now))) g (snapshot c a now))))"
proof -
  let ?snap = "snapshot c a now"
  have d: "distinct (map fst ?snap)"
    using wf_snapshot [OF assms(1)] by (simp add: wf_contacts_def)
  have eq: "filter (\<lambda>e. e \<notin> set ?snap \<or> fresh now e) ?snap = filter (fresh now) ?snap"
    by (rule filter_cong [OF refl]) simp
  have nil: "[] @ xs = xs" for xs :: sends by simp
  from reflect_result [OF d subset_refl d, of net "fanout (length ?snap)" now data g "[]"]
  show ?thesis
    unfolding handle_packet_accept [OF assms(2,3)] eq nil .
qed



lemma handle_packet_accept_Inr:
  assumes "wf_contacts c" "\<not> now - last_seen c a < 10"
    and "handle_packet net c g data a now = Inr (c', g', s)"
  shows "c' = filter (fresh now) (snapshot c a now) \<and>
         g' = (\<lambda>i. g (i + length (snapshot c a now))) \<and>
         s = map (\<lambda>e. (data, fst e))
               (selected (fanout (length (snapshot c a now))) g (snapshot c a now))"
proof -
  have data: "data \<noteq> []"
    using assms(3) by (rule handle_packet_Inr_data)
  from handle_packet_accept_result [OF assms(1) data assms(2), of net g]
  show ?thesis
  proof (elim disjE conjE)
    assume "handle_packet net c g data a now = Inl OSError"
    with assms(3) show ?thesis by simp
  next
    assume "handle_packet net c g data a now =
      Inr (filter (fresh now) (snapshot c a now), (\<lambda>i. g (i + length (snapshot c a now))),
           map (\<lambda>e. (data, fst e))
             (selected (fanout (length (snapshot c a now))) g (snapshot c a now)))"
    with assms(3) show ?thesis by simp
  qed
qed

lemma handle_packet_completes:
  assumes "wf_contacts c" "data \<noteq> []" "\<forall>e \<in> set (snapshot c a now). net data (fst e)"
  shows "\<exists>c' g' s. handle_packet net c g data a now = Inr (c', g', s)"
proof (cases "now - last_seen c a < 10")
  case True
  from handle_packet_reject [OF assms(2) True] show ?thesis by blast
next
  case False
  have sub: "set (selected (fanout (length (snapshot c a now))) g (snapshot c a now))
      \<subseteq> set (snapshot c a now)"
    by (rule selected_subset)
  from handle_packet_accept_result [OF assms(1,2) False, of net g]
  show ?thesis
  proof (elim disjE conjE bexE)
    fix e
    assume "e \<in> set (selected (fanout (length (snapshot c a now))) g (snapshot c a now))"
      and "\<not> net data (fst e)"
    with sub assms(3) show ?thesis by blast
  next
    assume "handle_packet net c g data a now =
      Inr (filter (fresh now) (snapshot c a now), (\<lambda>i. g (i + length (snapshot c a now))),
           map (\<lambda>e. (data, fst e))
             (selected (fanout (length (snapshot c a now))) g (snapshot c a now)))"
    then show ?thesis by (intro exI)
  qed
qed

lemma handle_packet_no_KeyError:
  assumes "wf_contacts c"
  shows "handle_packet net c g data a now \<noteq> Inl KeyError"
proof (cases "data = []")
  case True
  then show ?thesis by (simp add: handle_packet_def log_received_def)
next
  case False
  show ?thesis
  proof (cases "now - last_seen c a < 10")
    case True
    from handle_packet_reject [OF False True, of net g] show ?thesis by simp
  next
    case reflected: False
    from handle_packet_accept_result [OF assms False reflected, of net g] show ?thesis
      by (elim disjE conjE) simp_all
  qed
qed

lemma map_of_filter_keep:
  "distinct (map fst xs) \<Longrightarrow> map_of xs k = Some v \<Longrightarrow>
     map_of (filter P xs) k = (if P (k, v) then Some v else None)"
proof (induction xs)
  case Nil
  then show ?case by simp
next
  case (Cons x xs)
  obtain a w where x: "x = (a, w)" by (cases x)
  show ?case
  proof (cases "a = k")
    case True
    with Cons.prems x have "w = v" "k \<notin> fst ` set xs" by auto
    then have "map_of (filter P xs) k = None"
      by (auto simp: map_of_eq_None_iff)
    with True x \<open>w = v\<close> show ?thesis by simp
  next
    case False
    with Cons x show ?thesis by simp
  qed
qed

lemma wf_filter: "wf_contacts c \<Longrightarrow> wf_contacts (filter P c)"
  by (simp add: wf_contacts_def distinct_map_filter)

lemma fanout_ge_1: "n < 50 \<Longrightarrow> 1 \<le> fanout n"
  by (simp add: fanout_def le_divide_eq)

lemma unit_draws_below: "unit_draws g \<Longrightarrow> 1 \<le> f \<Longrightarrow> \<forall>i. g i < f"
  unfolding unit_draws_def by (meson less_le_trans)

lemma update_new_last: "a \<notin> fst ` set c \<Longrightarrow> AList.update a v (c @ [(a, w)]) = c @ [(a, v)]"
  by (induction c) auto

lemma snapshot_new: "a \<notin> fst ` set c \<Longrightarrow> snapshot c a now = c @ [(a, now)]"
  by (simp add: snapshot_def setitem_def getitem_def map_of_eq_None_iff [THEN iffD2] update_new_last)

lemma last_seen_new: "a \<notin> fst ` set c \<Longrightarrow> last_seen c a = 0"
  by (simp add: last_seen_def getitem_def map_of_eq_None_iff [THEN iffD2])

subsection \<open>Runs\<close>

text \<open>
  An accepted datagram leaves its source in the table with the arrival time. While
  datagrams arrive less than 10 seconds after a stored time stamp, the entry stays as it
  is, whichever sources they come from.
\<close>

lemma accepted_stores_now:
  assumes "wf_contacts c" "\<not> now - last_seen c a < 10"
    and "handle_packet net c g data a now = Inr (c', g', s)"
  shows "wf_contacts c' \<and> map_of c' a = Some now"
proof -
  from handle_packet_accept_Inr [OF assms]
  have c': "c' = filter (fresh now) (snapshot c a now)"
    by simp
  have w: "wf_contacts (snapshot c a now)"
    using assms(1) by (rule wf_snapshot)
  then have d: "distinct (map fst (snapshot c a now))"
    by (simp add: wf_contacts_def)
  have "map_of (filter (fresh now) (snapshot c a now)) a = Some now"
    using map_of_filter_keep [OF d, of a now "fresh now"]
    by (simp add: map_of_snapshot fresh_def)
  with wf_filter [OF w, of "fresh now"] c' show ?thesis by simp
qed

lemma handle_packet_keeps_recent:
  assumes "wf_contacts c" "map_of c a = Some t" "now - t < 10"
    and "handle_packet net c g data b now = Inr (c', g', s)"
  shows "wf_contacts c' \<and> map_of c' a = Some t"
proof -
  have data: "data \<noteq> []"
    using assms(4) by (rule handle_packet_Inr_data)
  have seen: "last_seen c a = t"
    using assms(2) by (simp add: last_seen_def getitem_def)
  show ?thesis
  proof (cases "now - last_seen c b < 10")
    case True
    from handle_packet_reject [OF data True, of net g] assms(4)
    have c': "c' = snd (getitem c b)" by simp
    have "map_of (snd (getitem c b)) a = Some t"
    proof (cases "b = a")
      case True
      then show ?thesis using map_of_getitem [of c a] seen by simp
    next
      case False
      then show ?thesis using assms(2) by (simp add: map_of_getitem_other)
    qed
    with wf_getitem [OF assms(1), of b] c' show ?thesis by simp
  next
    case False
    with seen assms(3) have ne: "a \<noteq> b" by auto
    from handle_packet_accept_Inr [OF assms(1) False assms(4)]
    have c': "c' = filter (fresh now) (snapshot c b now)"
      by simp
    have w: "wf_contacts (snapshot c b now)"
      using assms(1) by (rule wf_snapshot)
    then have d: "distinct (map fst (snapshot c b now))"
      by (simp add: wf_contacts_def)
    have m: "map_of (snapshot c b now) a = Some t"
      using ne assms(2) by (simp add: map_of_snapshot)
    have "map_of (filter (fresh now) (snapshot c b now)) a = Some t"
      using map_of_filter_keep [OF d m, of "fresh now"] assms(3)
      by (simp add: fresh_def)
    with wf_filter [OF w, of "fresh now"] c' show ?thesis by simp
  qed
qed

lemma main_loop_keeps_recent:
  assumes "wf_contacts c" "map_of c a = Some t" "\<forall>e \<in> set evs. snd (snd e) - t < 10"
    and "main_loop net c g evs = Inr (c', g', out)"
  shows "wf_contacts c' \<and> map_of c' a = Some t"
  using assms
proof (induction evs arbitrary: c g out)
  case Nil
  then show ?case by simp
next
  case (Cons ev evs)
  obtain data b now where ev: "ev = (data, b, now)" by (cases ev)
  from Cons.prems(4) ev obtain c1 g1 s1 out1 where
    h: "handle_packet net c g data b now = Inr (c1, g1, s1)" and
    m: "main_loop net c1 g1 evs = Inr (c', g', out1)"
    by (auto split: sum.splits)
  from Cons.prems(3) ev have now: "now - t < 10" and rest: "\<forall>e \<in> set evs. snd (snd e) - t < 10"
    by auto
  from handle_packet_keeps_recent [OF Cons.prems(1,2) now h]
  have "wf_contacts c1" "map_of c1 a = Some t" by auto
  from Cons.IH [OF this rest m] show ?case .
qed

lemma main_loop_append:
  "main_loop net c g (xs @ ys) =
     (case main_loop net c g xs of
        Inl e \<Rightarrow> Inl e
      | Inr (c1, g1, o1) \<Rightarrow>
          (case main_loop net c1 g1 ys of
             Inl e \<Rightarrow> Inl e
           | Inr (c2, g2, o2) \<Rightarrow> Inr (c2, g2, o1 @ o2)))"
proof (induction xs arbitrary: c g)
  case Nil
  then show ?case by (simp split: sum.splits)
next
  case (Cons x xs)
  obtain data b now where x: "x = (data, b, now)" by (cases x)
  show ?case
    unfolding x by (simp add: Cons.IH split: sum.splits prod.splits)
qed

lemma forward_prob_fanout: "49 \<le> n \<Longrightarrow> forward_prob (fanout n) = 50 / (real n + 1)"
  by (simp add: forward_prob_def fanout_def divide_le_eq divide_less_eq)

lemma passing_draws: "{r. 0 \<le> r \<and> r < 1 \<and> r < f} = {0..<forward_prob f}"
  by (auto simp: forward_prob_def)

lemma wf_ports_table: "wf_contacts (ports_table n t)"
  by (simp add: wf_contacts_def ports_table_def distinct_map comp_def inj_on_def del: upt_Suc)

lemma ports_table_keys: "fst ` set (ports_table n t) = {(''10.0.0.1'', p) | p. 1 \<le> p \<and> p \<le> n}"
  by (auto simp: ports_table_def image_iff simp del: upt_Suc)

lemma length_ports_table: "length (ports_table n t) = n"
  by (simp add: ports_table_def del: upt_Suc)

text \<open>
  A send that the network refuses ends the loop: the first datagram of a source on port
  0 is accepted, the pass reaches the entry of the source, and sending to it fails.
\<close>

lemma refused_send_ends_loop:
  "handle_packet port0_net [] (const_rng 0) [1] (''10.0.0.1'', 0) 100 = Inl OSError"
  by (simp add: handle_packet_def log_received_def getitem_def setitem_def
      fanout_def random_random_def const_rng_def sendto_def port0_net_def)

subsection \<open>Claims\<close>

text \<open>
  C3. A zero-length datagram: the logging call at the head of the loop body indexes the
  first byte of the payload, so the iteration ends with \<^verbatim>\<open>IndexError\<close> before the
  cooldown test, whatever the table, the source, the time and the network are.
\<close>

theorem empty_payload_raises:
  "handle_packet net c g [] a now = Inl IndexError"
  by (simp add: handle_packet_def log_received_def)

text \<open>
  C1. The lookup at the head of the body reads the stored time stamp of the source (0
  for a source that is not in the table, which is thereby entered with 0). When the
  iteration completes, the stored time stamp is the arrival time only if the datagram
  passed the cooldown test; a datagram rejected by the cooldown leaves the stored time
  stamp as it was. The claim's reading, a refresh on every receipt, fails: a datagram
  from a source stored at 100 that arrives at 105 is rejected and the table still holds
  100.
\<close>

theorem stored_timestamp_after_packet:
  assumes "wf_contacts c" "handle_packet net c g data a now = Inr (c', g', s)"
  shows "map_of c' a = Some (if now - last_seen c a < 10 then last_seen c a else now)"
proof (cases "now - last_seen c a < 10")
  case True
  have "data \<noteq> []"
    using assms(2) by (rule handle_packet_Inr_data)
  from handle_packet_reject [OF this True, of net g] assms(2)
  have "c' = snd (getitem c a)" by simp
  with True show ?thesis by (simp add: map_of_getitem)
next
  case False
  from accepted_stores_now [OF assms(1) False assms(2)] False show ?thesis by simp
qed

theorem stored_timestamp_after_packet_witness:
  "wf_contacts [] \<and>
   (\<exists>c' g' s. handle_packet port0_net [] (const_rng 0) [1] (''10.0.0.1'', 4444) 100
        = Inr (c', g', s) \<and>
      map_of c' (''10.0.0.1'', 4444) = Some 100)"
proof -
  have h1: "wf_contacts []" by (simp add: wf_contacts_def)
  have "\<forall>e \<in> set (snapshot [] (''10.0.0.1'', 4444) 100). port0_net [1] (fst e)"
    by (simp add: snapshot_def getitem_def setitem_def port0_net_def)
  from handle_packet_completes
    [where net = port0_net and data = "[1]" and g = "const_rng 0", OF h1 _ this]
  obtain c' g' s where run:
    "handle_packet port0_net [] (const_rng 0) [1] (''10.0.0.1'', 4444) 100 = Inr (c', g', s)"
    by auto
  from stored_timestamp_after_packet [OF h1 run]
  have "map_of c' (''10.0.0.1'', 4444) = Some 100"
    by (simp add: last_seen_def getitem_def)
  with h1 run show ?thesis by blast
qed

theorem rejected_packet_keeps_timestamp:
  "outcome (handle_packet port0_net [((''10.0.0.1'', 4444), 100)] (const_rng 0) [1]
      (''10.0.0.1'', 4444) 105)
     = Inr ([((''10.0.0.1'', 4444), 100)], [])"
  by (simp add: outcome_def handle_packet_def log_received_def getitem_def)

text \<open>
  C9. A datagram with a payload whose source is in the table with a time stamp less than
  10 seconds before the arrival time is rejected by the cooldown: the iteration returns
  the table as it was (no refresh, no insertion, no eviction), takes no random draw and
  sends nothing. The bound on the arrival time that the claim assumes is not needed
  when the source is in the table.
\<close>

theorem cooldown_reject_unchanged:
  assumes "data \<noteq> []" "map_of c a = Some t" "now - t < 10"
  shows "handle_packet net c g data a now = Inr (c, g, [])"
proof -
  have "getitem c a = (t, c)"
    using assms(2) by (simp add: getitem_def)
  then have "last_seen c a = t" "snd (getitem c a) = c"
    by (simp_all add: last_seen_def)
  with handle_packet_reject [OF assms(1), of now c a net g] assms(3) show ?thesis
    by simp
qed

theorem cooldown_reject_unchanged_witness:
  "[1 :: 8 word] \<noteq> [] \<and>
   map_of [((''10.0.0.1'', 4444 :: nat), 100 :: real)] (''10.0.0.1'', 4444) = Some 100 \<and>
   (105 :: real) - 100 < 10 \<and>
   handle_packet port0_net [((''10.0.0.1'', 4444), 100)] (const_rng 0) [1] (''10.0.0.1'', 4444) 105
     = Inr ([((''10.0.0.1'', 4444), 100)], const_rng 0, [])"
proof -
  have h1: "[1 :: 8 word] \<noteq> []" by simp
  have h2: "map_of [((''10.0.0.1'', 4444 :: nat), 100 :: real)] (''10.0.0.1'', 4444) = Some 100"
    by simp
  have h3: "(105 :: real) - 100 < 10" by simp
  from cooldown_reject_unchanged [OF h1 h2 h3, of port0_net "const_rng 0"] h1 h2 h3
  show ?thesis by blast
qed

text \<open>
  C6. When the pass of an accepted datagram at time \<open>now\<close> has run to its end, an entry
  of the scanned table whose time stamp lies more than 300 seconds back is no longer in
  the table, and every other scanned entry is still there with its time stamp. The
  generator is arbitrary, so this does not depend on which entries the datagram was sent
  to.
\<close>

theorem stale_entries_evicted:
  assumes "wf_contacts c" "\<not> now - last_seen c a < 10"
    and "handle_packet net c g data a now = Inr (c', g', s)"
    and "(k, t) \<in> set (snapshot c a now)"
  shows "map_of c' k = (if now - t > 300 then None else Some t)"
proof -
  from handle_packet_accept_Inr [OF assms(1-3)]
  have c': "c' = filter (fresh now) (snapshot c a now)"
    by simp
  have d: "distinct (map fst (snapshot c a now))"
    using wf_snapshot [OF assms(1)] by (simp add: wf_contacts_def)
  with assms(4) have "map_of (snapshot c a now) k = Some t"
    by simp
  from map_of_filter_keep [OF d this, of "fresh now"] c' show ?thesis
    by (simp add: fresh_def)
qed

theorem stale_entries_evicted_witness:
  "wf_contacts [((''10.0.0.2'', 4444), 0)] \<and>
   \<not> 301 - last_seen [((''10.0.0.2'', 4444), 0)] (''10.0.0.1'', 4444) < 10 \<and>
   ((''10.0.0.2'', 4444), 0) \<in> set (snapshot [((''10.0.0.2'', 4444), 0)] (''10.0.0.1'', 4444) 301) \<and>
   (\<exists>c' g' s. handle_packet port0_net [((''10.0.0.2'', 4444), 0)] (const_rng 0) [1]
          (''10.0.0.1'', 4444) 301 = Inr (c', g', s) \<and>
      map_of c' (''10.0.0.2'', 4444) = None)"
proof -
  have h1: "wf_contacts [((''10.0.0.2'', 4444), 0)]"
    by (simp add: wf_contacts_def)
  have h2: "\<not> 301 - last_seen [((''10.0.0.2'', 4444), 0)] (''10.0.0.1'', 4444) < 10"
    by (simp add: last_seen_def getitem_def)
  have h4: "((''10.0.0.2'', 4444), 0) \<in> set (snapshot [((''10.0.0.2'', 4444), 0)] (''10.0.0.1'', 4444) 301)"
    by (simp add: snapshot_def getitem_def setitem_def)
  have "\<forall>e \<in> set (snapshot [((''10.0.0.2'', 4444), 0)] (''10.0.0.1'', 4444) 301).
      port0_net [1] (fst e)"
    by (simp add: snapshot_def getitem_def setitem_def port0_net_def)
  from handle_packet_completes
    [where net = port0_net and data = "[1]" and g = "const_rng 0", OF h1 _ this]
  obtain c' g' s where run:
    "handle_packet port0_net [((''10.0.0.2'', 4444), 0)] (const_rng 0) [1]
          (''10.0.0.1'', 4444) 301 = Inr (c', g', s)"
    by auto
  from stale_entries_evicted [OF h1 h2 run h4]
  have "map_of c' (''10.0.0.2'', 4444) = None" by simp
  with h1 h2 h4 run show ?thesis by blast
qed

text \<open>
  C10. When the pass of an accepted datagram at time \<open>now\<close> has completed, every entry
  of the table has a time stamp at most 300 seconds back.
\<close>

theorem no_stale_entry_after_pass:
  assumes "wf_contacts c" "\<not> now - last_seen c a < 10"
    and "handle_packet net c g data a now = Inr (c', g', s)"
  shows "\<forall>e \<in> set c'. now - snd e \<le> 300"
proof -
  from handle_packet_accept_Inr [OF assms]
  have "c' = filter (fresh now) (snapshot c a now)"
    by simp
  then show ?thesis by (simp add: fresh_def)
qed

theorem no_stale_entry_after_pass_witness:
  "wf_contacts [((''10.0.0.2'', 4444), 0), ((''10.0.0.3'', 4444), 2)] \<and>
   \<not> 301 - last_seen [((''10.0.0.2'', 4444), 0), ((''10.0.0.3'', 4444), 2)] (''10.0.0.1'', 4444) < 10 \<and>
   (\<exists>c' g' s. handle_packet port0_net [((''10.0.0.2'', 4444), 0), ((''10.0.0.3'', 4444), 2)]
          (const_rng 0) [1] (''10.0.0.1'', 4444) 301 = Inr (c', g', s) \<and>
      list_all (\<lambda>e. 301 - snd e \<le> 300) c')"
proof -
  have h1: "wf_contacts [((''10.0.0.2'', 4444), 0), ((''10.0.0.3'', 4444), 2)]"
    by (simp add: wf_contacts_def)
  have h2: "\<not> 301 - last_seen [((''10.0.0.2'', 4444), 0), ((''10.0.0.3'', 4444), 2)] (''10.0.0.1'', 4444) < 10"
    by (simp add: last_seen_def getitem_def)
  have "\<forall>e \<in> set (snapshot [((''10.0.0.2'', 4444), 0), ((''10.0.0.3'', 4444), 2)]
      (''10.0.0.1'', 4444) 301). port0_net [1] (fst e)"
    by (simp add: snapshot_def getitem_def setitem_def port0_net_def)
  from handle_packet_completes
    [where net = port0_net and data = "[1]" and g = "const_rng 0", OF h1 _ this]
  obtain c' g' s where run:
    "handle_packet port0_net [((''10.0.0.2'', 4444), 0), ((''10.0.0.3'', 4444), 2)]
          (const_rng 0) [1] (''10.0.0.1'', 4444) 301 = Inr (c', g', s)"
    by auto
  from no_stale_entry_after_pass [OF h1 h2 run]
  have "list_all (\<lambda>e. 301 - snd e \<le> 300) c'"
    unfolding list_all_iff .
  with h1 h2 run show ?thesis by blast
qed

text \<open>
  C5. For every accepted datagram whose pass completes, the factor is 50 / (N + 1), with
  N the size of the table once the source has been entered or refreshed: the datagram
  has been sent to exactly the entries of the scanned table whose draw is below that
  value, in table order. When N is below 50 the factor is at least 1, so with draws from
  the half-open unit interval the datagram has been sent to every entry of the scanned
  table.
\<close>

theorem factor_selects_recipients:
  assumes "wf_contacts c" "\<not> now - last_seen c a < 10"
    and "handle_packet net c g data a now = Inr (c', g', s)"
  shows "s = map (\<lambda>e. (data, fst e))
               (selected (50 / (real (length (snapshot c a now)) + 1)) g (snapshot c a now)) \<and>
         (length (snapshot c a now) < 50 \<longrightarrow>
            1 \<le> 50 / (real (length (snapshot c a now)) + 1) \<and>
            (unit_draws g \<longrightarrow> s = map (\<lambda>e. (data, fst e)) (snapshot c a now)))"
proof -
  from handle_packet_accept_Inr [OF assms]
  have s: "s = map (\<lambda>e. (data, fst e))
      (selected (fanout (length (snapshot c a now))) g (snapshot c a now))"
    by simp
  have small: "s = map (\<lambda>e. (data, fst e)) (snapshot c a now)"
    if "length (snapshot c a now) < 50" "unit_draws g"
  proof -
    from that(1) have "1 \<le> fanout (length (snapshot c a now))"
      by (rule fanout_ge_1)
    from unit_draws_below [OF that(2) this] have
      "selected (fanout (length (snapshot c a now))) g (snapshot c a now) = snapshot c a now"
      by (rule selected_all)
    with s show ?thesis by simp
  qed
  have "1 \<le> 50 / (real (length (snapshot c a now)) + 1)" if "length (snapshot c a now) < 50"
    using fanout_ge_1 [OF that] by (simp add: fanout_def)
  with s small show ?thesis
    unfolding fanout_def by blast
qed

theorem factor_selects_recipients_witness:
  "wf_contacts [((''10.0.0.2'', 4444), 95)] \<and>
   \<not> 100 - last_seen [((''10.0.0.2'', 4444), 95)] (''10.0.0.1'', 4444) < 10 \<and>
   length (snapshot [((''10.0.0.2'', 4444), 95)] (''10.0.0.1'', 4444) 100) < 50 \<and>
   unit_draws (const_rng (1 / 2)) \<and>
   (\<exists>c' g'. handle_packet port0_net [((''10.0.0.2'', 4444), 95)] (const_rng (1 / 2)) [1]
        (''10.0.0.1'', 4444) 100 =
      Inr (c', g', [([1], (''10.0.0.2'', 4444)), ([1], (''10.0.0.1'', 4444))]))"
proof -
  have h1: "wf_contacts [((''10.0.0.2'', 4444), 95)]"
    by (simp add: wf_contacts_def)
  have h2: "\<not> 100 - last_seen [((''10.0.0.2'', 4444), 95)] (''10.0.0.1'', 4444) < 10"
    by (simp add: last_seen_def getitem_def)
  have h4: "unit_draws (const_rng (1 / 2))"
    by (simp add: unit_draws_def const_rng_def)
  have snap: "snapshot [((''10.0.0.2'', 4444), 95)] (''10.0.0.1'', 4444) 100 =
      [((''10.0.0.2'', 4444), 95), ((''10.0.0.1'', 4444), 100)]"
    by (simp add: snapshot_def getitem_def setitem_def)
  have h5: "length (snapshot [((''10.0.0.2'', 4444), 95)] (''10.0.0.1'', 4444) 100) < 50"
    by (simp add: snap)
  have "\<forall>e \<in> set (snapshot [((''10.0.0.2'', 4444), 95)] (''10.0.0.1'', 4444) 100).
      port0_net [1] (fst e)"
    by (simp add: snap port0_net_def)
  from handle_packet_completes
    [where net = port0_net and data = "[1]" and g = "const_rng (1 / 2)", OF h1 _ this]
  obtain c' g' s where run:
    "handle_packet port0_net [((''10.0.0.2'', 4444), 95)] (const_rng (1 / 2)) [1]
        (''10.0.0.1'', 4444) 100 = Inr (c', g', s)"
    by auto
  from factor_selects_recipients [OF h1 h2 run] h4 h5
  have "s = map (\<lambda>e. ([1], fst e))
      (snapshot [((''10.0.0.2'', 4444), 95)] (''10.0.0.1'', 4444) 100)"
    by blast
  then have "s = [([1], (''10.0.0.2'', 4444)), ([1], (''10.0.0.1'', 4444))]"
    by (simp add: snap)
  with run h1 h2 h4 h5 show ?thesis by blast
qed

text \<open>
  C4. A source that is not in the table sends a datagram, at a time of at least 10, to a
  table of fewer than 49 contacts none of which is stale (three contacts seen one second
  ago are such a table). The source is entered last, so the table grows by one, and when
  the pass completes the datagram has been sent to every earlier contact and then to the
  source itself: the pass scans the entry of the source like any other. The claim's
  reading, that the source is left out, fails on the scenario of three contacts.
\<close>

theorem new_sender_reflected_to_all:
  assumes "wf_contacts c" "a \<notin> fst ` set c" "\<forall>e \<in> set c. now - snd e \<le> 300"
    and "length c < 49" "10 \<le> now" "unit_draws g"
    and "handle_packet net c g data a now = Inr (c', g', s)"
  shows "c' = c @ [(a, now)] \<and> g' = (\<lambda>i. g (i + (length c + 1))) \<and>
         s = map (\<lambda>e. (data, fst e)) c @ [(data, a)]"
proof -
  have snap: "snapshot c a now = c @ [(a, now)]"
    using assms(2) by (rule snapshot_new)
  have acc: "\<not> now - last_seen c a < 10"
    using assms(5) by (simp add: last_seen_new [OF assms(2)])
  have "length (snapshot c a now) < 50"
    using assms(4) by (simp add: snap)
  then have "1 \<le> fanout (length (snapshot c a now))"
    by (rule fanout_ge_1)
  from unit_draws_below [OF assms(6) this]
  have all: "selected (fanout (length (snapshot c a now))) g (snapshot c a now) =
      snapshot c a now"
    by (rule selected_all)
  have keep: "filter (fresh now) (c @ [(a, now)]) = c @ [(a, now)]"
    using assms(3) by (simp add: fresh_def filter_id_conv not_less)
  from handle_packet_accept_Inr [OF assms(1) acc assms(7)]
  have "c' = c @ [(a, now)] \<and> g' = (\<lambda>i. g (i + length (c @ [(a, now)]))) \<and>
      s = map (\<lambda>e. (data, fst e)) (c @ [(a, now)])"
    unfolding all unfolding snap keep .
  then show ?thesis by simp
qed

theorem new_sender_reflected_to_all_witness:
  "wf_contacts [((''10.0.0.1'', 4444), 99), ((''10.0.0.2'', 4444), 99), ((''10.0.0.3'', 4444), 99)] \<and>
   (''10.0.0.4'', 4444) \<notin> fst ` set [((''10.0.0.1'', 4444 :: nat), 99 :: real), ((''10.0.0.2'', 4444), 99), ((''10.0.0.3'', 4444), 99)] \<and>
   list_all (\<lambda>e. 100 - snd e \<le> 300)
     [((''10.0.0.1'', 4444 :: nat), 99 :: real), ((''10.0.0.2'', 4444), 99), ((''10.0.0.3'', 4444), 99)] \<and>
   length [((''10.0.0.1'', 4444 :: nat), 99 :: real), ((''10.0.0.2'', 4444), 99), ((''10.0.0.3'', 4444), 99)] < 49 \<and>
   (10 :: real) \<le> 100 \<and> unit_draws (const_rng (1 / 2)) \<and>
   (\<exists>c' g' s. handle_packet port0_net
       [((''10.0.0.1'', 4444), 99), ((''10.0.0.2'', 4444), 99), ((''10.0.0.3'', 4444), 99)]
       (const_rng (1 / 2)) [1] (''10.0.0.4'', 4444) 100 = Inr (c', g', s) \<and>
     c' = [((''10.0.0.1'', 4444), 99), ((''10.0.0.2'', 4444), 99), ((''10.0.0.3'', 4444), 99),
           ((''10.0.0.4'', 4444), 100)] \<and>
     s = [([1], (''10.0.0.1'', 4444)), ([1], (''10.0.0.2'', 4444)), ([1], (''10.0.0.3'', 4444)),
           ([1], (''10.0.0.4'', 4444))])"
proof -
  let ?c = "[((''10.0.0.1'', 4444 :: nat), 99 :: real), ((''10.0.0.2'', 4444), 99), ((''10.0.0.3'', 4444), 99)]"
  have h1: "wf_contacts ?c" by (simp add: wf_contacts_def)
  have h2: "(''10.0.0.4'', 4444) \<notin> fst ` set ?c" by simp
  have h3: "\<forall>e \<in> set ?c. 100 - snd e \<le> 300" by simp
  have h3': "list_all (\<lambda>e. 100 - snd e \<le> 300) ?c" by simp
  have h4: "length ?c < 49" by simp
  have h5: "(10 :: real) \<le> 100" by simp
  have h6: "unit_draws (const_rng (1 / 2))"
    by (simp add: unit_draws_def const_rng_def)
  have "\<forall>e \<in> set (snapshot ?c (''10.0.0.4'', 4444) 100). port0_net [1] (fst e)"
    by (simp add: snapshot_new [OF h2] port0_net_def)
  from handle_packet_completes
    [where net = port0_net and data = "[1]" and g = "const_rng (1 / 2)", OF h1 _ this]
  obtain c' g' s where run:
    "handle_packet port0_net ?c (const_rng (1 / 2)) [1] (''10.0.0.4'', 4444) 100 = Inr (c', g', s)"
    by auto
  from new_sender_reflected_to_all [OF h1 h2 h3 h4 h5 h6 run]
  have "c' = [((''10.0.0.1'', 4444), 99), ((''10.0.0.2'', 4444), 99), ((''10.0.0.3'', 4444), 99),
           ((''10.0.0.4'', 4444), 100)] \<and>
     s = [([1], (''10.0.0.1'', 4444)), ([1], (''10.0.0.2'', 4444)), ([1], (''10.0.0.3'', 4444)),
           ([1], (''10.0.0.4'', 4444))]"
    by simp
  with run h1 h2 h3' h4 h5 h6 show ?thesis by blast
qed

theorem fourth_sender_receives_own_packet:
  "outcome (handle_packet port0_net
       [((''10.0.0.1'', 4444), 99), ((''10.0.0.2'', 4444), 99), ((''10.0.0.3'', 4444), 99)]
       (const_rng (1 / 2)) [1] (''10.0.0.4'', 4444) 100) =
     Inr ([((''10.0.0.1'', 4444), 99), ((''10.0.0.2'', 4444), 99), ((''10.0.0.3'', 4444), 99),
           ((''10.0.0.4'', 4444), 100)],
          [([1], (''10.0.0.1'', 4444)), ([1], (''10.0.0.2'', 4444)), ([1], (''10.0.0.3'', 4444)),
           ([1], (''10.0.0.4'', 4444))]) \<and>
   ([1 :: 8 word], (''10.0.0.4'', 4444 :: nat)) \<in>
     set [([1], (''10.0.0.1'', 4444)), ([1], (''10.0.0.2'', 4444)), ([1], (''10.0.0.3'', 4444)),
          ([1], (''10.0.0.4'', 4444))]"
  by (simp add: outcome_def handle_packet_def log_received_def getitem_def setitem_def
      fanout_def random_random_def const_rng_def delitem_def sendto_def port0_net_def)

text \<open>
  C8. In the completed pass of an accepted datagram over a snapshot of N entries, N at
  least 50, an entry is sent the datagram exactly when its draw is below 50 / (N + 1).
  The draws of the half-open unit interval that pass this test are those from 0 up to
  that value, so each entry is sent to with chance 50 / (N + 1), and the expected number
  of sends, the sum of this chance over the N entries, is 50 N / (N + 1): always below
  50, never exactly 50. For N = 50 it is 2500 / 51.
\<close>

theorem expected_sends_large_table:
  assumes "wf_contacts c" "\<not> now - last_seen c a < 10"
    and "handle_packet net c g data a now = Inr (c', g', s)"
    and "N = length (snapshot c a now)" "50 \<le> N"
  shows "s = map (\<lambda>e. (data, fst e)) (selected (fanout N) g (snapshot c a now)) \<and>
         {r. 0 \<le> r \<and> r < 1 \<and> r < fanout N} = {0..<forward_prob (fanout N)} \<and>
         forward_prob (fanout N) = 50 / (real N + 1) \<and>
         expected_sends N = 50 * real N / (real N + 1) \<and>
         expected_sends N < 50"
proof -
  from handle_packet_accept_Inr [OF assms(1-3)] assms(4)
  have s: "s = map (\<lambda>e. (data, fst e)) (selected (fanout N) g (snapshot c a now))"
    by simp
  have p: "forward_prob (fanout N) = 50 / (real N + 1)"
    using assms(5) by (simp add: forward_prob_fanout)
  have e: "expected_sends N = 50 * real N / (real N + 1)"
    by (simp add: expected_sends_def p)
  have "50 * real N / (real N + 1) < 50"
    by (simp add: divide_less_eq)
  with s p e passing_draws [of "fanout N"] show ?thesis by simp
qed

theorem expected_sends_large_table_witness:
  "wf_contacts (ports_table 49 95) \<and>
   \<not> 100 - last_seen (ports_table 49 95) (''10.0.0.2'', 4444) < 10 \<and>
   50 = length (snapshot (ports_table 49 95) (''10.0.0.2'', 4444) 100) \<and>
   (50 :: nat) \<le> 50 \<and>
   (\<exists>c' g' s. handle_packet port0_net (ports_table 49 95) (const_rng (1 / 2)) [1]
        (''10.0.0.2'', 4444) 100 = Inr (c', g', s) \<and>
      s = map (\<lambda>e. ([1], fst e))
            (selected (fanout 50) (const_rng (1 / 2))
               (snapshot (ports_table 49 95) (''10.0.0.2'', 4444) 100)) \<and>
      expected_sends 50 = 50 * real 50 / (real 50 + 1) \<and>
      expected_sends 50 < 50)"
proof -
  have h1: "wf_contacts (ports_table 49 95)"
    by (rule wf_ports_table)
  have new: "(''10.0.0.2'', 4444) \<notin> fst ` set (ports_table 49 95)"
    by (simp add: ports_table_keys)
  have h2: "\<not> 100 - last_seen (ports_table 49 95) (''10.0.0.2'', 4444) < 10"
    by (simp add: last_seen_new [OF new])
  have snap: "snapshot (ports_table 49 95) (''10.0.0.2'', 4444) 100 =
      ports_table 49 95 @ [((''10.0.0.2'', 4444), 100)]"
    using new by (rule snapshot_new)
  have h4: "50 = length (snapshot (ports_table 49 95) (''10.0.0.2'', 4444) 100)"
    by (simp add: snap length_ports_table)
  have h5: "(50 :: nat) \<le> 50" by simp
  have "\<forall>e \<in> set (snapshot (ports_table 49 95) (''10.0.0.2'', 4444) 100).
      port0_net [1] (fst e)"
    unfolding snap by (auto simp: port0_net_def ports_table_def simp del: upt_Suc)
  from handle_packet_completes
    [where net = port0_net and data = "[1]" and g = "const_rng (1 / 2)", OF h1 _ this]
  obtain c' g' s where run:
    "handle_packet port0_net (ports_table 49 95) (const_rng (1 / 2)) [1]
        (''10.0.0.2'', 4444) 100 = Inr (c', g', s)"
    by auto
  from expected_sends_large_table [OF h1 h2 run h4 h5]
  have "s = map (\<lambda>e. ([1], fst e))
            (selected (fanout 50) (const_rng (1 / 2))
               (snapshot (ports_table 49 95) (''10.0.0.2'', 4444) 100)) \<and>
      expected_sends 50 = 50 * real 50 / (real 50 + 1) \<and>
      expected_sends 50 < 50"
    by blast
  with run h1 h2 h4 h5 show ?thesis by blast
qed

theorem expected_sends_50_not_50:
  "expected_sends 50 = 2500 / 51 \<and> expected_sends 50 \<noteq> 50"
  by (simp add: expected_sends_def forward_prob_def fanout_def)

text \<open>
  C2. The cooldown is counted from the last datagram of the source that was accepted,
  not from the last one received. If a datagram from a source is accepted at \<open>t1\<close>,
  and a later datagram from the same source arrives at \<open>t2\<close>, less than 10 seconds after
  \<open>t1\<close>, the datagrams received in between (from any source) having arrived no later
  than \<open>t2\<close>, then nothing is sent for the later datagram. For two consecutive datagrams
  of which the first was itself rejected the claim fails: after datagrams from one source
  at 100 (accepted) and 109 (rejected), the datagram at 111 is reflected.
\<close>

theorem cooldown_after_accepted:
  assumes "wf_contacts c" "\<not> t1 - last_seen c a < 10"
    and "\<forall>e \<in> set between. snd (snd e) \<le> t2" "t2 - t1 < 10"
    and "main_loop net c g ((d1, a, t1) # between @ [(d2, a, t2)]) = Inr (c', g', out)"
  shows "last out = []"
proof -
  from assms(5) obtain c1 g1 s1 out1 where
    h1: "handle_packet net c g d1 a t1 = Inr (c1, g1, s1)" and
    m1: "main_loop net c1 g1 (between @ [(d2, a, t2)]) = Inr (c', g', out1)" and
    out: "out = s1 # out1"
    by (auto split: sum.splits)
  from accepted_stores_now [OF assms(1,2) h1]
  have w1: "wf_contacts c1" and s1: "map_of c1 a = Some t1" by auto
  from m1 obtain c2 g2 out2 s2 where
    m2: "main_loop net c1 g1 between = Inr (c2, g2, out2)" and
    h2: "handle_packet net c2 g2 d2 a t2 = Inr (c', g', s2)" and
    out1: "out1 = out2 @ [s2]"
    unfolding main_loop_append by (auto split: sum.splits)
  have "\<forall>e \<in> set between. snd (snd e) - t1 < 10"
    using assms(3,4) by force
  from main_loop_keeps_recent [OF w1 s1 this m2]
  have s2: "map_of c2 a = Some t1" by simp
  have d2: "d2 \<noteq> []"
    using h2 by (rule handle_packet_Inr_data)
  have "t2 - last_seen c2 a < 10"
    using s2 assms(4) by (simp add: last_seen_def getitem_def)
  from handle_packet_reject [OF d2 this, of net g2] h2 have "s2 = []" by simp
  with out out1 show ?thesis by simp
qed

theorem cooldown_after_accepted_witness:
  "wf_contacts [] \<and> \<not> 100 - last_seen [] (''10.0.0.1'', 4444) < 10 \<and>
   list_all (\<lambda>e. snd (snd e) \<le> 105) [([2 :: 8 word], (''10.0.0.2'', 4444 :: nat), 103 :: real)] \<and>
   (105 :: real) - 100 < 10 \<and>
   (\<exists>c' g' out.
      main_loop port0_net [] (const_rng 0)
        (([1], (''10.0.0.1'', 4444), 100) # [([2], (''10.0.0.2'', 4444), 103)] @
           [([3], (''10.0.0.1'', 4444), 105)]) = Inr (c', g', out) \<and>
      last out = [])"
proof -
  have h1: "wf_contacts []" by (simp add: wf_contacts_def)
  have h2: "\<not> 100 - last_seen [] (''10.0.0.1'', 4444) < 10"
    by (simp add: last_seen_def getitem_def)
  have h3: "\<forall>e \<in> set [([2 :: 8 word], (''10.0.0.2'', 4444 :: nat), 103 :: real)]. snd (snd e) \<le> 105"
    by simp
  have h4: "(105 :: real) - 100 < 10" by simp
  have "\<exists>c' g' out.
      main_loop port0_net [] (const_rng 0)
        (([1], (''10.0.0.1'', 4444), 100) # [([2], (''10.0.0.2'', 4444), 103)] @
           [([3], (''10.0.0.1'', 4444), 105)]) = Inr (c', g', out)"
    by (simp add: handle_packet_def log_received_def getitem_def setitem_def
        fanout_def random_random_def const_rng_def delitem_def sendto_def port0_net_def)
  then obtain c' g' out where run:
    "main_loop port0_net [] (const_rng 0)
        (([1], (''10.0.0.1'', 4444), 100) # [([2], (''10.0.0.2'', 4444), 103)] @
           [([3], (''10.0.0.1'', 4444), 105)]) = Inr (c', g', out)"
    by blast
  have h3': "list_all (\<lambda>e. snd (snd e) \<le> 105) [([2 :: 8 word], (''10.0.0.2'', 4444 :: nat), 103 :: real)]"
    by simp
  from cooldown_after_accepted [OF h1 h2 h3 h4 run] have "last out = []" .
  with run h1 h2 h3' h4 show ?thesis by blast
qed

theorem reflected_two_seconds_after_rejected:
  "outcome (main_loop port0_net [] (const_rng 0)
      [([1], (''10.0.0.2'', 4444), 95), ([1], (''10.0.0.1'', 4444), 100),
       ([2], (''10.0.0.1'', 4444), 109), ([3], (''10.0.0.1'', 4444), 111)]) =
   Inr ([((''10.0.0.2'', 4444), 95), ((''10.0.0.1'', 4444), 111)],
        [[([1], (''10.0.0.2'', 4444))],
         [([1], (''10.0.0.2'', 4444)), ([1], (''10.0.0.1'', 4444))],
         [],
         [([3], (''10.0.0.2'', 4444)), ([3], (''10.0.0.1'', 4444))]])"
  by (simp add: outcome_def handle_packet_def log_received_def getitem_def setitem_def
      fanout_def random_random_def const_rng_def delitem_def sendto_def port0_net_def)

end
